theory Spec2Isabelle
  imports Complex_Main "HOL-Library.AList" "HOL-Library.Log_Nat"
begin

section \<open>The visit counter service (app.py)\<close>

text \<open>
  The service is a Flask application with two routes, \<^verbatim>\<open>/ping\<close> and \<^verbatim>\<open>/count\<close>,
  in front of a Redis store. The handlers and \<^verbatim>\<open>get_redis\<close> are embedded below as
  functions over an explicit state: the module global \<^verbatim>\<open>REDIS_VERSION\<close>, the calls made
  on the logger, the commands handed to the Redis client and the contents of the remote
  store. What the Redis client answers during one request is an input of the handler.
\<close>

subsection \<open>Python floats\<close>

text \<open>
  A Python \<^verbatim>\<open>float\<close> is an IEEE 754 double: a finite value (given here by the rational
  number it denotes; \<open>Float 0\<close> is \<^verbatim>\<open>+0.0\<close>), \<^verbatim>\<open>-0.0\<close>, an infinity or a NaN.
\<close>

datatype pyfloat = Float rat | NegZero | PosInf | NegInf | NaN

text \<open>Rounding to the nearest integer, ties to the even one.\<close>

definition round_half_even :: "rat \<Rightarrow> int" where
  "round_half_even x =
     (let f = \<lfloor>x\<rfloor>; d = x - of_int f in
      if d < 1 / 2 then f
      else if 1 / 2 < d then f + 1
      else if even f then f else f + 1)"

text \<open>
  \<open>ilog2 x\<close> is the binary exponent of a positive \<open>x\<close>: the \<open>e\<close> with
  \<open>2 powi e \<le> x\<close> and \<open>x < 2 powi (e + 1)\<close>. \<open>ulp x\<close> is the distance between
  neighbouring doubles at \<open>x\<close>: 52 binary places below the exponent, and \<open>2 powi (- 1074)\<close>
  throughout the subnormal range. \<open>nearest x\<close> is the multiple of \<open>ulp x\<close> nearest to
  \<open>\<bar>x\<bar>\<close>, ties to the even multiple.
\<close>

definition ilog2 :: "rat \<Rightarrow> int" where
  "ilog2 x = (if 1 \<le> x then bitlen \<lfloor>x\<rfloor> - 1 else - bitlen (\<lceil>1 / x\<rceil> - 1))"

definition ulp :: "rat \<Rightarrow> rat" where
  "ulp x = 2 powi (max (ilog2 \<bar>x\<bar>) (- 1022) - 52)"

definition nearest :: "rat \<Rightarrow> rat" where
  "nearest x = of_int (round_half_even (\<bar>x\<bar> / ulp x)) * ulp x"

text \<open>
  The double that an exact result \<open>x\<close> rounds to (round to nearest, ties to even): an
  infinity from \<open>2 powi 1024\<close> on, a zero with the sign of \<open>x\<close> when \<open>x\<close> is too small.
\<close>

definition to_double :: "rat \<Rightarrow> pyfloat" where
  "to_double x =
     (if x = 0 then Float 0
      else
        let r = nearest x in
        if 2 powi 1024 \<le> r then (if x < 0 then NegInf else PosInf)
        else if r = 0 then (if x < 0 then NegZero else Float 0)
        else Float (if x < 0 then - r else r))"

text \<open>
  \<^verbatim>\<open>a - b\<close> for two finite floats, given by their values; a zero difference is
  \<^verbatim>\<open>+0.0\<close>.
\<close>

definition float_sub :: "rat \<Rightarrow> rat \<Rightarrow> pyfloat" where
  "float_sub a b = to_double (a - b)"

text \<open>
  \<^verbatim>\<open>x * c\<close> for a float \<open>x\<close> and a positive finite \<open>c\<close> (the handler multiplies by
  \<^verbatim>\<open>1000\<close>, which Python converts to \<^verbatim>\<open>1000.0\<close>).
\<close>

fun float_mul :: "pyfloat \<Rightarrow> rat \<Rightarrow> pyfloat" where
  "float_mul (Float a) c = to_double (a * c)"
| "float_mul NegZero c = NegZero"
| "float_mul PosInf c = PosInf"
| "float_mul NegInf c = NegInf"
| "float_mul NaN c = NaN"

text \<open>
  \<^verbatim>\<open>round(x, n)\<close> for a float \<open>x\<close> and \<open>n \<ge> 0\<close>. Zeros, infinities and NaN are returned
  as they are, and so is every float when \<open>n\<close> exceeds 323. Otherwise Python rounds the
  exact value of \<open>x\<close> to \<open>n\<close> decimals, ties to the even neighbour, and returns the double
  nearest to that decimal number; a value that rounds to zero keeps its sign.
\<close>

fun py_round :: "pyfloat \<Rightarrow> nat \<Rightarrow> pyfloat" where
  "py_round (Float a) n =
     (if a = 0 \<or> 323 < n then Float a
      else
        let k = round_half_even (a * 10 ^ n) in
        if k = 0 then (if a < 0 then NegZero else Float 0)
        else to_double (of_int k / 10 ^ n))"
| "py_round NegZero n = NegZero"
| "py_round PosInf n = PosInf"
| "py_round NegInf n = NegInf"
| "py_round NaN n = NaN"

subsection \<open>Values: JSON, responses, log records\<close>

datatype json = JNull | JBool bool | JInt int | JFloat pyfloat | JStr string

type_synonym dict = "(string \<times> json) list"

text \<open>
  \<^verbatim>\<open>jsonify(d)\<close> is a response with status 200; \<^verbatim>\<open>jsonify(d), 503\<close> carries the status
  given. A Python dict keeps one value per key: assignment to a key replaces the value in
  place (\<open>AList.update\<close>).
\<close>

record response =
  status_code :: nat
  body :: dict

definition jsonify :: "dict \<Rightarrow> response" where
  "jsonify d = \<lparr>status_code = 200, body = d\<rparr>"

definition field :: "response \<Rightarrow> string \<Rightarrow> json option" where
  "field r k = map_of (body r) k"

datatype log_level = INFO | WARNING | ERROR

text \<open>
  One call on \<^verbatim>\<open>logger\<close>: its level, its message and the \<^verbatim>\<open>custom_data\<close> passed in
  \<^verbatim>\<open>extra\<close> (\<open>None\<close> when the call passes no \<^verbatim>\<open>extra\<close>).
\<close>

record log_record =
  levelname :: log_level
  message :: string
  custom_data :: "string option"

text \<open>
  The handler that \<^verbatim>\<open>logging.basicConfig\<close> installs formats every record with the format
  string of lines 23 to 34, which has the field \<^verbatim>\<open>%(custom_data)s\<close>.
  \<^verbatim>\<open>ServiceContextFormatter\<close>, which would give a record a default \<^verbatim>\<open>custom_data\<close>, is
  defined and never installed. A record made without \<^verbatim>\<open>extra\<close> has no such attribute:
  formatting it raises inside the handler, which catches the exception and writes no log
  line for the record.
\<close>

definition emitted :: "log_record \<Rightarrow> bool" where
  "emitted r = (custom_data r \<noteq> None)"

subsection \<open>The Redis client as seen by one request\<close>

text \<open>
  Every failure of the Redis client is an exception of a subclass of \<^verbatim>\<open>RedisError\<close>,
  which is the class both handlers catch; \<open>str_of\<close> is Python's \<^verbatim>\<open>str(e)\<close>.
\<close>

datatype redis_error = ConnectionError string | TimeoutError string | ResponseError string

fun str_of :: "redis_error \<Rightarrow> string" where
  "str_of (ConnectionError m) = m"
| "str_of (TimeoutError m) = m"
| "str_of (ResponseError m) = m"

text \<open>
  Modelled from the spec: the behaviour of \<^verbatim>\<open>increment(key)\<close> of the backend store,
  which is not part of the repository. The command either is executed and answered, or
  the client raises; \<open>Raises e applied\<close> records whether the store had executed the
  increment before the error surfaced (a reply lost to a time-out) or not (the store was
  never reached, or refused the command).
\<close>

datatype incr_behaviour = Replies | Raises redis_error bool

text \<open>
  Modelled from the spec: what the backend does during one request. \<open>info_reply\<close> is
  the result of \<^verbatim>\<open>conn.info()\<close> (the server-info dictionary), \<open>ping_reply\<close> the result
  of \<^verbatim>\<open>conn.ping()\<close>, \<open>incr_reply\<close> the behaviour of \<^verbatim>\<open>conn.incr\<close>.
\<close>

record backend =
  info_reply :: "redis_error + (string \<rightharpoonup> string)"
  ping_reply :: "redis_error + bool"
  incr_reply :: incr_behaviour

datatype command = CmdINFO | CmdPING | CmdINCR string

subsection \<open>State\<close>

record state =
  REDIS_VERSION :: "string option"
  logged :: "log_record list"
  issued :: "command list"
  store :: "string \<rightharpoonup> int"

text \<open>A fresh process (\<^verbatim>\<open>REDIS_VERSION = None\<close>) in front of a store \<open>st\<close>.\<close>

definition fresh :: "(string \<rightharpoonup> int) \<Rightarrow> state" where
  "fresh st = \<lparr>REDIS_VERSION = None, logged = [], issued = [], store = st\<rparr>"

definition logger :: "log_level \<Rightarrow> string \<Rightarrow> string option \<Rightarrow> state \<Rightarrow> state" where
  "logger lv msg extra s =
     s\<lparr>logged := logged s @ [\<lparr>levelname = lv, message = msg, custom_data = extra\<rparr>]\<rparr>"

definition issue :: "command \<Rightarrow> state \<Rightarrow> state" where
  "issue c s = s\<lparr>issued := issued s @ [c]\<rparr>"

text \<open>
  Modelled from the spec: the store's atomic increment. The counter is created by the
  first increment and starts at 1; the new value is returned.
\<close>

definition counter_value :: "(string \<rightharpoonup> int) \<Rightarrow> string \<Rightarrow> int" where
  "counter_value st k = (case st k of None \<Rightarrow> 0 | Some v \<Rightarrow> v)"

definition store_incr :: "string \<Rightarrow> (string \<rightharpoonup> int) \<Rightarrow> (string \<rightharpoonup> int)" where
  "store_incr k st = st(k \<mapsto> counter_value st k + 1)"

text \<open>\<^verbatim>\<open>conn.incr(key)\<close>: the client sends the command; the result is the new value or the error raised.\<close>

definition conn_incr :: "backend \<Rightarrow> string \<Rightarrow> state \<Rightarrow> (redis_error + int) \<times> state" where
  "conn_incr b k s =
     (let s1 = issue (CmdINCR k) s in
      case incr_reply b of
        Replies \<Rightarrow> (Inr (counter_value (store s1) k + 1), s1\<lparr>store := store_incr k (store s1)\<rparr>)
      | Raises e applied \<Rightarrow>
          (Inl e, if applied then s1\<lparr>store := store_incr k (store s1)\<rparr> else s1))"

definition conn_info :: "backend \<Rightarrow> state \<Rightarrow> (redis_error + (string \<rightharpoonup> string)) \<times> state" where
  "conn_info b s = (info_reply b, issue CmdINFO s)"

definition conn_ping :: "backend \<Rightarrow> state \<Rightarrow> (redis_error + bool) \<times> state" where
  "conn_ping b s = (ping_reply b, issue CmdPING s)"

subsection \<open>Python helpers\<close>

text \<open>\<^verbatim>\<open>str(n)\<close> for an integer, used by the f-strings of the log calls.\<close>

function str_nat :: "nat \<Rightarrow> string" where
  "str_nat n = (if n < 10 then [char_of (48 + n)]
                else str_nat (n div 10) @ [char_of (48 + n mod 10)])"
  by pat_completeness auto
termination
  by (relation "measure id") auto

definition str_int :: "int \<Rightarrow> string" where
  "str_int i = (if i < 0 then ''-'' @ str_nat (nat (- i)) else str_nat (nat i))"

text \<open>\<^verbatim>\<open>os.getenv(name, default)\<close> over the process environment.\<close>

definition getenv :: "(string \<rightharpoonup> string) \<Rightarrow> string \<Rightarrow> string \<Rightarrow> string" where
  "getenv environ name dflt = (case environ name of None \<Rightarrow> dflt | Some v \<Rightarrow> v)"

subsection \<open>\<^verbatim>\<open>get_redis\<close>\<close>

text \<open>
  \<^verbatim>\<open>redis.Redis(connection_pool=redis_pool)\<close> builds a client object and contacts nothing.
  The version is fetched only while \<^verbatim>\<open>REDIS_VERSION is None\<close>; a failed fetch is caught
  here and stores \<^verbatim>\<open>'unknown'\<close>. The function returns the client, which is the backend
  it was given, so only the state is returned.
\<close>

definition get_redis :: "backend \<Rightarrow> state \<Rightarrow> state" where
  "get_redis b s =
     (case REDIS_VERSION s of
        None \<Rightarrow>
          (case conn_info b s of
             (Inr d, s1) \<Rightarrow>
               (let v = (case d ''redis_version'' of None \<Rightarrow> ''unknown'' | Some x \<Rightarrow> x);
                    s2 = s1\<lparr>REDIS_VERSION := Some v\<rparr>
                in logger INFO ''Connected to Redis''
                     (Some (''{\"version\": \"'' @ v @ ''\"}'')) s2)
           | (Inl e, s1) \<Rightarrow>
               (let s2 = logger WARNING ''Could not fetch Redis version'' None s1
                in s2\<lparr>REDIS_VERSION := Some ''unknown''\<rparr>))
      | Some v \<Rightarrow> s)"

subsection \<open>\<^verbatim>\<open>GET /ping\<close>\<close>

text \<open>
  \<open>t0\<close> and \<open>t1\<close> are the values of the two floats \<^verbatim>\<open>time.perf_counter()\<close> returns, in
  seconds: \<open>t0\<close> on entry, \<open>t1\<close> after the probe.
  \<^verbatim>\<open>conn.ping()\<close> either returns or raises; the handler ignores the value returned.
\<close>

definition ping :: "backend \<Rightarrow> (string \<rightharpoonup> string) \<Rightarrow> rat \<Rightarrow> rat \<Rightarrow> state \<Rightarrow> response \<times> state" where
  "ping b environ t0 t1 s =
     (let start_time = t0;
          response = [(''status'', JStr ''ok''),
                      (''environment'', JStr (getenv environ ''FLASK_ENV'' ''development'')),
                      (''redis_connected'', JBool False),
                      (''response_time_ms'', JInt 0),
                      (''version'', JStr ''1.2.0'')];
          s1 = get_redis b s;
          (response, s2) =
            (case conn_ping b s1 of
               (Inr pong, s') \<Rightarrow> (AList.update ''redis_connected'' (JBool True) response, s')
             | (Inl e, s') \<Rightarrow>
                 (response,
                  logger ERROR ''Redis ping failed''
                    (Some (''{\"error\": \"'' @ str_of e @ ''\"}'')) s'));
          response = AList.update ''response_time_ms''
                       (JFloat (py_round (float_mul (float_sub t1 start_time) 1000) 2)) response
      in (jsonify response, s2))"

subsection \<open>\<^verbatim>\<open>GET /count\<close>\<close>

definition json_of_version :: "string option \<Rightarrow> json" where
  "json_of_version v = (case v of None \<Rightarrow> JNull | Some x \<Rightarrow> JStr x)"

definition error_body :: dict where
  "error_body = [(''status'', JStr ''error''),
                 (''message'', JStr ''Counter service unavailable''),
                 (''action'', JStr ''Please try again later''),
                 (''severity'', JStr ''high'')]"

definition count :: "backend \<Rightarrow> state \<Rightarrow> response \<times> state" where
  "count b s =
     (let s1 = get_redis b s in
      case conn_incr b ''counter'' s1 of
        (Inr visits, s2) \<Rightarrow>
          (let s3 = logger INFO ''Visit recorded''
                      (Some (''{\"visit_count\": '' @ str_int visits @ ''}'')) s2
           in (jsonify [(''status'', JStr ''ok''),
                        (''visit_count'', JInt visits),
                        (''note'', JStr ''Try hitting refresh to see the counter increase!''),
                        (''redis_version'', json_of_version (REDIS_VERSION s3))],
               s3))
      | (Inl e, s2) \<Rightarrow>
          (let s3 = logger ERROR ''Redis operation failed''
                      (Some (''{\"error\": \"'' @ str_of e @ ''\"}'')) s2
           in ((jsonify error_body)\<lparr>status_code := 503\<rparr>, s3)))"

subsection \<open>Sequences of requests\<close>

text \<open>
  A request carries what the handler reads from outside while it runs: the behaviour of
  the backend, and for \<^verbatim>\<open>/ping\<close> the process environment and the two clock readings.
\<close>

datatype request =
    GET_ping backend "string \<rightharpoonup> string" rat rat
  | GET_count backend

fun handle :: "request \<Rightarrow> state \<Rightarrow> response \<times> state" where
  "handle (GET_ping b environ t0 t1) s = ping b environ t0 t1 s"
| "handle (GET_count b) s = count b s"

fun serve :: "request list \<Rightarrow> state \<Rightarrow> response list \<times> state" where
  "serve [] s = ([], s)"
| "serve (r # rs) s =
     (let (resp, s1) = handle r s; (resps, s2) = serve rs s1 in (resp # resps, s2))"

fun backend_of :: "request \<Rightarrow> backend" where
  "backend_of (GET_ping b environ t0 t1) = b"
| "backend_of (GET_count b) = b"

fun is_count :: "request \<Rightarrow> bool" where
  "is_count (GET_count b) = True"
| "is_count (GET_ping b environ t0 t1) = False"

text \<open>The \<^verbatim>\<open>visit_count\<close> values carried by a list of responses, in order.\<close>

definition visit_count_of :: "response \<Rightarrow> int option" where
  "visit_count_of r = (case field r ''visit_count'' of Some (JInt n) \<Rightarrow> Some n | _ \<Rightarrow> None)"

definition visit_counts :: "response list \<Rightarrow> int list" where
  "visit_counts rs = List.map_filter visit_count_of rs"

subsection \<open>The value the version cache takes\<close>

text \<open>
  The value \<^verbatim>\<open>REDIS_VERSION\<close> holds once \<^verbatim>\<open>get_redis\<close> has run against backend \<open>b\<close>
  in state \<open>s\<close>: the value already cached, else the \<^verbatim>\<open>redis_version\<close> entry of the
  server info, else \<^verbatim>\<open>'unknown'\<close> (the fetch failed or the entry is missing).
\<close>

definition version_after :: "backend \<Rightarrow> state \<Rightarrow> string" where
  "version_after b s =
     (case REDIS_VERSION s of
        Some v \<Rightarrow> v
      | None \<Rightarrow>
          (case info_reply b of
             Inl e \<Rightarrow> ''unknown''
           | Inr d \<Rightarrow> (case d ''redis_version'' of None \<Rightarrow> ''unknown'' | Some v \<Rightarrow> v)))"

subsection \<open>Erasing the text of the errors\<close>

text \<open>
  \<open>redact\<close> replaces the message of every exception the backend raises by the empty
  string and keeps everything else: which commands fail, with which class of error, and
  what the successful commands answer. Two runs that differ only in the text of the
  errors have the same redacted requests.
\<close>

fun redact_error :: "redis_error \<Rightarrow> redis_error" where
  "redact_error (ConnectionError m) = ConnectionError []"
| "redact_error (TimeoutError m) = TimeoutError []"
| "redact_error (ResponseError m) = ResponseError []"

definition redact :: "backend \<Rightarrow> backend" where
  "redact b =
     \<lparr>info_reply = (case info_reply b of Inl e \<Rightarrow> Inl (redact_error e) | Inr d \<Rightarrow> Inr d),
      ping_reply = (case ping_reply b of Inl e \<Rightarrow> Inl (redact_error e) | Inr p \<Rightarrow> Inr p),
      incr_reply = (case incr_reply b of
                      Replies \<Rightarrow> Replies
                    | Raises e applied \<Rightarrow> Raises (redact_error e) applied)\<rparr>"

fun redact_request :: "request \<Rightarrow> request" where
  "redact_request (GET_ping b environ t0 t1) = GET_ping (redact b) environ t0 t1"
| "redact_request (GET_count b) = GET_count (redact b)"

subsection \<open>Backends used in the examples\<close>

text \<open>A backend that cannot be reached: every command raises \<^verbatim>\<open>ConnectionError\<close> and the
  store executes nothing.\<close>

fun is_connection_error :: "redis_error \<Rightarrow> bool" where
  "is_connection_error (ConnectionError m) = True"
| "is_connection_error (TimeoutError m) = False"
| "is_connection_error (ResponseError m) = False"

definition unreachable :: "backend \<Rightarrow> bool" where
  "unreachable b =
     ((case info_reply b of Inl e \<Rightarrow> is_connection_error e | Inr d \<Rightarrow> False) \<and>
      (case ping_reply b of Inl e \<Rightarrow> is_connection_error e | Inr p \<Rightarrow> False) \<and>
      (case incr_reply b of
         Replies \<Rightarrow> False
       | Raises e applied \<Rightarrow> is_connection_error e \<and> \<not> applied))"

definition backend_up :: backend where
  "backend_up = \<lparr>info_reply = Inr [''redis_version'' \<mapsto> ''7.2.4''],
                  ping_reply = Inr True,
                  incr_reply = Replies\<rparr>"

definition backend_down :: "string \<Rightarrow> backend" where
  "backend_down m = \<lparr>info_reply = Inl (ConnectionError m),
                      ping_reply = Inl (ConnectionError m),
                      incr_reply = Raises (ConnectionError m) False\<rparr>"

section \<open>Auxiliary lemmas\<close>

lemma get_redis_cached: "REDIS_VERSION s = Some v \<Longrightarrow> get_redis b s = s"
  by (simp add: get_redis_def)

lemma get_redis_store [simp]: "store (get_redis b s) = store s"
  by (simp add: get_redis_def conn_info_def issue_def logger_def split: option.splits sum.splits)

lemma ping_status: "status_code (fst (ping b environ t0 t1 s)) = 200"
  by (simp add: ping_def jsonify_def Let_def split: prod.splits sum.splits)

lemma ping_store: "store (snd (ping b environ t0 t1 s)) = store s"
  by (simp add: ping_def conn_ping_def issue_def logger_def Let_def split: prod.splits sum.splits)

lemma ping_no_visit: "visit_count_of (fst (ping b environ t0 t1 s)) = None"
  by (simp add: ping_def visit_count_of_def field_def jsonify_def conn_ping_def Let_def split: prod.splits sum.splits)

lemma count_status: "status_code (fst (count b s)) = (if incr_reply b = Replies then 200 else 503)"
  by (simp add: count_def conn_incr_def jsonify_def Let_def split: prod.splits sum.splits incr_behaviour.splits)

lemma count_ok: "incr_reply b = Replies \<Longrightarrow>
   visit_count_of (fst (count b s)) = Some (counter_value (store s) ''counter'' + 1) \<and>
   counter_value (store (snd (count b s))) ''counter'' = counter_value (store s) ''counter'' + 1"
  by (simp add: count_def conn_incr_def jsonify_def Let_def visit_count_of_def field_def logger_def issue_def
      store_incr_def counter_value_def)

lemma visit_counts_Cons:
  "visit_counts (r # rs) =
     (case visit_count_of r of None \<Rightarrow> visit_counts rs | Some v \<Rightarrow> v # visit_counts rs)"
  by (simp add: visit_counts_def split: option.splits)

lemma visit_counts_Nil: "visit_counts [] = []"
  by (simp add: visit_counts_def)

lemma serve_Cons_fst:
  "fst (serve (r # rs) s) = fst (handle r s) # fst (serve rs (snd (handle r s)))"
  by (simp add: split_beta Let_def serve.simps)

lemma serve_Cons_snd:
  "snd (serve (r # rs) s) = snd (serve rs (snd (handle r s)))"
  by (simp add: split_beta Let_def serve.simps)

declare serve.simps(2) [simp del]

lemma serve_visit_counts:
  "\<forall>r \<in> set (fst (serve reqs s)). status_code r = 200 \<Longrightarrow>
   visit_counts (fst (serve reqs s)) =
     [counter_value (store s) ''counter'' + 1 ..
      counter_value (store s) ''counter'' + int (length (filter is_count reqs))]"
proof (induction reqs arbitrary: s)
  case Nil
  show ?case by (simp add: visit_counts_Nil)
next
  case (Cons r rs)
  let ?c = "counter_value (store s) ''counter''"
  let ?s1 = "snd (handle r s)"
  from Cons.prems have tl: "\<forall>x \<in> set (fst (serve rs ?s1)). status_code x = 200"
    and hd: "status_code (fst (handle r s)) = 200"
    by (simp_all add: serve_Cons_fst)
  note IH = Cons.IH [OF tl]
  show ?case
  proof (cases r)
    case (GET_ping b environ t0 t1)
    then show ?thesis using IH
      by (simp add: serve_Cons_fst visit_counts_Cons ping_no_visit ping_store)
  next
    case (GET_count b)
    with hd have ok: "incr_reply b = Replies"
      by (simp add: count_status split: if_splits)
    let ?n = "int (length (filter is_count rs))"
    have step: "[?c + 1 .. ?c + (1 + ?n)] = (?c + 1) # [?c + 1 + 1 .. ?c + 1 + ?n]"
      by (subst upto_rec1) (simp_all add: add.assoc)
    from count_ok [OF ok, of s] GET_count
    have v: "visit_count_of (fst (handle r s)) = Some (?c + 1)"
      and c': "counter_value (store ?s1) ''counter'' = ?c + 1"
      by simp_all
    from IH c' have "visit_counts (fst (serve rs ?s1)) = [?c + 1 + 1 .. ?c + 1 + ?n]"
      by simp
    with v step GET_count show ?thesis
      by (simp add: serve_Cons_fst visit_counts_Cons)
  qed
qed

lemma powi_nat: "0 \<le> e \<Longrightarrow> (2::rat) powi e = 2 ^ nat e"
  by (simp add: power_int_def)

lemma powi_neg: "0 \<le> e \<Longrightarrow> (2::rat) powi (- e) = 1 / 2 ^ nat e"
  by (cases "e = 0") (simp_all add: power_int_def field_simps)

lemma ilog2_bounds_ge1:
  assumes "1 \<le> x"
  shows "2 powi ilog2 x \<le> x" and "x < 2 powi (ilog2 x + 1)"
proof -
  let ?n = "\<lfloor>x\<rfloor>"
  from assms have n: "0 < ?n" by linarith
  from bitlen_bounds [OF n] have lo: "2 ^ nat (bitlen ?n - 1) \<le> ?n" and hi: "?n < 2 ^ nat (bitlen ?n)"
    by simp_all
  from n have b1: "1 \<le> bitlen ?n" by (simp add: bitlen_alt_def)
  from assms have e: "ilog2 x = bitlen ?n - 1" by (simp add: ilog2_def)
  from lo have "rat_of_int (2 ^ nat (bitlen ?n - 1)) \<le> rat_of_int ?n" by (simp only: of_int_le_iff)
  then have "(2::rat) ^ nat (bitlen ?n - 1) \<le> rat_of_int ?n" by simp
  also have "\<dots> \<le> x" by linarith
  finally show "2 powi ilog2 x \<le> x" using b1 by (simp add: e powi_nat)
  from hi have "?n + 1 \<le> 2 ^ nat (bitlen ?n)" by simp
  then have "rat_of_int (?n + 1) \<le> rat_of_int (2 ^ nat (bitlen ?n))" by (simp only: of_int_le_iff)
  then have "rat_of_int ?n + 1 \<le> 2 ^ nat (bitlen ?n)" by simp
  moreover have "x < rat_of_int ?n + 1" by linarith
  ultimately have "x < 2 ^ nat (bitlen ?n)" by linarith
  then show "x < 2 powi (ilog2 x + 1)" using b1 by (simp add: e powi_nat)
qed

lemma ilog2_bounds_lt1:
  assumes "0 < x" and "x < 1"
  shows "2 powi ilog2 x \<le> x" and "x < 2 powi (ilog2 x + 1)"
proof -
  let ?y = "1 / x"
  let ?n = "\<lceil>?y\<rceil>"
  let ?c = "bitlen (?n - 1)"
  from assms have y1: "1 < ?y" by simp
  then have n2: "0 < ?n - 1" by linarith
  from bitlen_bounds [OF n2] have lo: "2 ^ nat (?c - 1) \<le> ?n - 1" and hi: "?n - 1 < 2 ^ nat ?c"
    by simp_all
  from n2 have c1: "1 \<le> ?c" by (simp add: bitlen_alt_def)
  from assms have e: "ilog2 x = - ?c" by (simp add: ilog2_def)
  from hi have "?n \<le> 2 ^ nat ?c" by simp
  then have "rat_of_int ?n \<le> rat_of_int (2 ^ nat ?c)" by (simp only: of_int_le_iff)
  then have "rat_of_int ?n \<le> 2 ^ nat ?c" by simp
  moreover have "?y \<le> rat_of_int ?n" by linarith
  ultimately have yc: "?y \<le> 2 ^ nat ?c" by linarith
  have p: "(0::rat) < 2 ^ nat ?c" by simp
  from yc assms(1) p have "1 / 2 ^ nat ?c \<le> x"
    by (simp add: field_simps)
  then show "2 powi ilog2 x \<le> x" using c1 by (simp add: e powi_neg)
  from lo have "rat_of_int (2 ^ nat (?c - 1)) \<le> rat_of_int (?n - 1)" by (simp only: of_int_le_iff)
  then have "(2::rat) ^ nat (?c - 1) \<le> rat_of_int ?n - 1" by simp
  moreover have "rat_of_int ?n - 1 < ?y" by linarith
  ultimately have "(2::rat) ^ nat (?c - 1) < ?y" by linarith
  moreover have "(0::rat) < 2 ^ nat (?c - 1)" by simp
  ultimately have "x < 1 / 2 ^ nat (?c - 1)" using assms(1)
    by (simp add: field_simps)
  moreover have "ilog2 x + 1 = - (?c - 1)" by (simp add: e)
  ultimately show "x < 2 powi (ilog2 x + 1)" using c1 by (simp only: powi_neg [of "?c - 1"]) 
qed

lemma ilog2_bounds:
  assumes "0 < x"
  shows "2 powi ilog2 x \<le> x" and "x < 2 powi (ilog2 x + 1)"
  using assms ilog2_bounds_ge1 [of x] ilog2_bounds_lt1 [of x]
  by (cases "1 \<le> x"; simp)+

lemma round_half_even_bounds:
  "rat_of_int (round_half_even x) \<le> x + 1 / 2 \<and> x - 1 / 2 \<le> rat_of_int (round_half_even x)"
proof -
  define f where "f = \<lfloor>x\<rfloor>"
  have lo: "rat_of_int f \<le> x" and hi: "x < rat_of_int f + 1"
    unfolding f_def by linarith+
  consider "x - rat_of_int f < 1 / 2" | "1 / 2 < x - rat_of_int f" | "x - rat_of_int f = 1 / 2"
    by linarith
  then show ?thesis
  proof cases
    case 1
    then have "round_half_even x = f" by (simp add: round_half_even_def f_def)
    with 1 lo show ?thesis by simp
  next
    case 2
    then have "round_half_even x = f + 1" by (simp add: round_half_even_def f_def)
    with 2 hi show ?thesis by simp
  next
    case 3
    then have "round_half_even x = f \<or> round_half_even x = f + 1"
      by (simp add: round_half_even_def f_def Let_def)
    with 3 show ?thesis by auto
  qed
qed

lemma round_half_even_nonneg: "0 \<le> x \<Longrightarrow> 0 \<le> round_half_even x"
  by (auto simp: round_half_even_def Let_def)

lemma ulp_pos: "0 < ulp x"
  by (simp add: ulp_def)

lemma nearest_nonneg: "0 \<le> nearest x"
proof -
  have "0 \<le> \<bar>x\<bar> / ulp x" using ulp_pos [of x] by simp
  then have "0 \<le> round_half_even (\<bar>x\<bar> / ulp x)" by (rule round_half_even_nonneg)
  then show ?thesis using ulp_pos [of x] by (simp add: nearest_def)
qed

lemma nearest_close: "\<bar>nearest x - \<bar>x\<bar>\<bar> \<le> ulp x / 2"
proof -
  let ?m = "rat_of_int (round_half_even (\<bar>x\<bar> / ulp x))"
  from round_half_even_bounds [of "\<bar>x\<bar> / ulp x"]
  have "\<bar>?m - \<bar>x\<bar> / ulp x\<bar> \<le> 1 / 2" by linarith
  then have "\<bar>?m - \<bar>x\<bar> / ulp x\<bar> * ulp x \<le> 1 / 2 * ulp x"
    using ulp_pos [of x] by (simp only: mult_le_cancel_right) simp
  moreover have "\<bar>?m - \<bar>x\<bar> / ulp x\<bar> * ulp x = \<bar>nearest x - \<bar>x\<bar>\<bar>"
  proof -
    have "\<bar>?m - \<bar>x\<bar> / ulp x\<bar> * ulp x = \<bar>(?m - \<bar>x\<bar> / ulp x) * ulp x\<bar>"
      using ulp_pos [of x] by (simp add: abs_mult)
    also have "(?m - \<bar>x\<bar> / ulp x) * ulp x = nearest x - \<bar>x\<bar>"
      using ulp_pos [of x] by (simp add: nearest_def left_diff_distrib)
    finally show ?thesis .
  qed
  ultimately show ?thesis by simp
qed

lemma ulp_le_powi:
  assumes "x \<noteq> 0" and "\<bar>x\<bar> \<le> 2 powi B" and "- 1022 \<le> B"
  shows "ulp x \<le> 2 powi (B - 52)"
proof -
  from assms(1) have p: "0 < \<bar>x\<bar>" by simp
  from ilog2_bounds(1) [OF p] assms(2) have "(2::rat) powi ilog2 \<bar>x\<bar> \<le> 2 powi B" by simp
  then have "ilog2 \<bar>x\<bar> \<le> B"
    by (metis power_int_strict_increasing not_le one_less_numeral_iff semiring_norm(76))
  with assms(3) have "max (ilog2 \<bar>x\<bar>) (- 1022) - 52 \<le> B - 52" by simp
  then show ?thesis unfolding ulp_def by (rule power_int_increasing) simp
qed

lemma half_ulp_le:
  assumes "x \<noteq> 0"
  shows "ulp x / 2 \<le> \<bar>x\<bar> / 2 ^ 53 + 1 / 2 ^ 60"
proof (cases "- 1022 \<le> ilog2 \<bar>x\<bar>")
  case True
  from assms have p: "0 < \<bar>x\<bar>" by simp
  from True have "ulp x = 2 powi (ilog2 \<bar>x\<bar> - 52)" by (simp add: ulp_def max_def)
  also have "\<dots> = 2 powi ilog2 \<bar>x\<bar> / 2 ^ 52" by (simp add: power_int_diff)
  also have "\<dots> \<le> \<bar>x\<bar> / 2 ^ 52" using ilog2_bounds(1) [OF p] by (simp add: divide_right_mono)
  finally show ?thesis by simp
next
  case False
  then have "ulp x = 2 powi (- 1022 - 52)" by (simp add: ulp_def max_def)
  also have "\<dots> \<le> 2 powi (- 59)" by (rule power_int_increasing) simp_all
  also have "\<dots> = 1 / 2 ^ 59" by (simp add: power_int_minus_divide)
  finally have "ulp x / 2 \<le> 1 / 2 ^ 60" by simp
  moreover have "0 \<le> \<bar>x\<bar> / 2 ^ 53" by simp
  ultimately show ?thesis by linarith
qed

lemma to_double_pos_cases:
  assumes "0 < x"
  shows "to_double x = (if 2 powi 1024 \<le> nearest x then PosInf else Float (nearest x))"
  using assms by (simp add: to_double_def Let_def del: power_int_numeral)

lemma to_double_finite:
  assumes "0 \<le> x" and "x \<le> 2 powi B" and "- 1022 \<le> B" and "B \<le> 1022"
  shows "\<exists>v. to_double x = Float v \<and> 0 \<le> v \<and> v \<le> 2 powi (B + 1)"
proof (cases "x = 0")
  case True
  then show ?thesis by (simp add: to_double_def)
next
  case False
  with assms(1) have p: "0 < x" by simp
  from p assms(2) have "ulp x \<le> 2 powi (B - 52)"
    using ulp_le_powi [of x B] assms(3) by simp
  also have "\<dots> \<le> 2 powi B" by (rule power_int_increasing) simp_all
  finally have u: "ulp x \<le> 2 powi B" .
  from nearest_close [of x] p have "nearest x \<le> x + ulp x / 2" by linarith
  with assms(2) u have "nearest x \<le> 2 powi B + 2 powi B / 2" by linarith
  also have "\<dots> \<le> 2 powi B + 2 powi B"
    by simp
  also have "\<dots> = 2 powi (B + 1)" by (simp add: power_int_add)
  finally have n: "nearest x \<le> 2 powi (B + 1)" .
  have "(2::rat) powi (B + 1) < 2 powi 1024"
    using assms(4) by (intro power_int_strict_increasing) simp_all
  with n have "\<not> 2 powi 1024 \<le> nearest x" by linarith
  with p n nearest_nonneg [of x] show ?thesis
    by (simp add: to_double_pos_cases del: power_int_numeral)
qed

lemma to_double_close:
  assumes "0 \<le> x" and "to_double x = Float v"
  shows "\<bar>v - x\<bar> \<le> x / 2 ^ 53 + 1 / 2 ^ 60" and "0 \<le> v"
proof -
  show "\<bar>v - x\<bar> \<le> x / 2 ^ 53 + 1 / 2 ^ 60"
  proof (cases "x = 0")
    case True
    with assms(2) show ?thesis by (simp add: to_double_def)
  next
    case False
    with assms(1) have p: "0 < x" by simp
    with assms(2) have "v = nearest x"
      by (simp add: to_double_pos_cases del: power_int_numeral split: if_splits)
    with nearest_close [of x] half_ulp_le [OF False] p show ?thesis by linarith
  qed
  show "0 \<le> v"
  proof (cases "x = 0")
    case True
    with assms(2) show ?thesis by (simp add: to_double_def)
  next
    case False
    with assms(1) have p: "0 < x" by simp
    with assms(2) have "v = nearest x"
      by (simp add: to_double_pos_cases del: power_int_numeral split: if_splits)
    then show ?thesis by (simp add: nearest_nonneg)
  qed
qed

lemma ilog2_unique:
  assumes "2 powi e \<le> x" and "x < 2 powi (e + 1)"
  shows "ilog2 x = e"
proof -
  have "(0::rat) < 2 powi e" by simp
  with assms(1) have p: "0 < x" by linarith
  from ilog2_bounds(1) [OF p] assms(2) have "(2::rat) powi ilog2 x < 2 powi (e + 1)" by linarith
  then have a: "ilog2 x < e + 1"
    by (metis power_int_increasing not_le one_le_numeral)
  from ilog2_bounds(2) [OF p] assms(1) have "(2::rat) powi e < 2 powi (ilog2 x + 1)" by linarith
  then have "e < ilog2 x + 1"
    by (metis power_int_increasing not_le one_le_numeral)
  with a show ?thesis by simp
qed

lemma to_double_normal:
  assumes "2 powi e \<le> x" and "x < 2 powi (e + 1)" and "- 1022 \<le> e" and "e < 1022"
  shows "to_double x = Float (of_int (round_half_even (x / 2 powi (e - 52))) * 2 powi (e - 52))"
proof -
  have "(0::rat) < 2 powi e" by simp
  with assms(1) have p: "0 < x" by linarith
  from assms(1,2) have "ilog2 x = e" by (rule ilog2_unique)
  with p assms(3) have u: "ulp x = 2 powi (e - 52)" by (simp add: ulp_def)
  with p have n: "nearest x = of_int (round_half_even (x / 2 powi (e - 52))) * 2 powi (e - 52)"
    by (simp add: nearest_def)
  from p assms have "\<exists>v. to_double x = Float v \<and> 0 \<le> v \<and> v \<le> 2 powi (e + 1 + 1)"
    by (intro to_double_finite) simp_all
  then obtain v where "to_double x = Float v" by blast
  with p have "to_double x = Float (nearest x)"
    by (simp add: to_double_pos_cases del: power_int_numeral split: if_splits)
  with n show ?thesis by simp
qed

lemma round_half_even_eqI:
  assumes "\<bar>x - rat_of_int m\<bar> < 1 / 2"
  shows "round_half_even x = m"
proof -
  from round_half_even_bounds [of x] assms
  have "\<bar>rat_of_int (round_half_even x) - rat_of_int m\<bar> < 1" by linarith
  then have "\<bar>rat_of_int (round_half_even x - m)\<bar> < rat_of_int 1" by simp
  then have "\<bar>round_half_even x - m\<bar> < 1" by (simp only: of_int_abs [symmetric] of_int_less_iff)
  then show ?thesis by simp
qed

lemma round_half_even_tie:
  assumes "x = rat_of_int m + 1 / 2"
  shows "round_half_even x = (if even m then m else m + 1)"
proof -
  have "\<lfloor>x\<rfloor> = m" unfolding assms by linarith
  then show ?thesis by (simp add: round_half_even_def assms)
qed

lemma round_half_even_0: "round_half_even 0 = 0"
  by (simp add: round_half_even_def)

lemma py_round2_nonneg:
  assumes "0 \<le> d"
  shows "py_round (Float d) 2 = to_double (rat_of_int (round_half_even (d * 100)) / 100)"
proof (cases "d = 0")
  case True
  then show ?thesis by (simp add: round_half_even_0 to_double_def)
next
  case False
  with assms show ?thesis by (simp add: Let_def to_double_def)
qed

lemma rounding_error_upper:
  fixes v kk d d1 D :: rat
  assumes a1: "d1 \<le> D + (D / 2 ^ 53 + 1 / 2 ^ 60)"
    and b1: "d \<le> d1 * 1000 + (d1 * 1000 / 2 ^ 53 + 1 / 2 ^ 60)"
    and k1: "kk \<le> d + 1 / 200" and v1: "v \<le> kk + (kk / 2 ^ 53 + 1 / 2 ^ 60)" and D0: "0 \<le> D"
  shows "v - D * 1000 \<le> 1 / 200 + (D * 1000 + 1) / 2 ^ 50"
proof -
  have p: "(2::rat) ^ 53 = 9007199254740992" "(2::rat) ^ 60 = 1152921504606846976"
    "(2::rat) ^ 50 = 1125899906842624" by simp_all
  from assms have "v - D * 1000 \<le> 1 / 200 + (D * 1000 / 1125899906842624 + 1 / 1125899906842624)"
    unfolding p by linarith
  then show ?thesis unfolding p add_divide_distrib .
qed

lemma rounding_error_lower:
  fixes v kk d d1 D :: rat
  assumes a2: "D - (D / 2 ^ 53 + 1 / 2 ^ 60) \<le> d1"
    and b2: "d1 * 1000 - (d1 * 1000 / 2 ^ 53 + 1 / 2 ^ 60) \<le> d"
    and k2: "d - 1 / 200 \<le> kk" and v2: "kk - (kk / 2 ^ 53 + 1 / 2 ^ 60) \<le> v" and D0: "0 \<le> D"
  shows "- (1 / 200 + (D * 1000 + 1) / 2 ^ 50) \<le> v - D * 1000"
proof -
  have p: "(2::rat) ^ 53 = 9007199254740992" "(2::rat) ^ 60 = 1152921504606846976"
    "(2::rat) ^ 50 = 1125899906842624" by simp_all
  from assms have "- (1 / 200 + (D * 1000 / 1125899906842624 + 1 / 1125899906842624)) \<le> v - D * 1000"
    unfolding p by linarith
  then show ?thesis unfolding p add_divide_distrib .
qed

lemma response_time:
  assumes "t0 \<le> t1" and "t1 - t0 \<le> 2 ^ 64"
  shows "\<exists>d k v. float_mul (float_sub t1 t0) 1000 = Float d \<and> 0 \<le> d \<and> 0 \<le> k
           \<and> \<bar>rat_of_int k / 100 - d\<bar> \<le> 1 / 200
           \<and> to_double (rat_of_int k / 100) = Float v \<and> 0 \<le> v
           \<and> py_round (float_mul (float_sub t1 t0) 1000) 2 = Float v
           \<and> \<bar>v - (t1 - t0) * 1000\<bar> \<le> 1 / 200 + ((t1 - t0) * 1000 + 1) / 2 ^ 50"
proof -
  define \<Delta> where "\<Delta> = t1 - t0"
  from assms have \<Delta>0: "0 \<le> \<Delta>" and \<Delta>1: "\<Delta> \<le> 2 powi 64"
    by (simp_all add: \<Delta>_def)
  from to_double_finite [OF \<Delta>0 \<Delta>1]
  obtain d1 where d1: "to_double \<Delta> = Float d1" and d1_0: "0 \<le> d1" and d1_le: "d1 \<le> 2 powi 65"
    by auto
  note c1 = to_double_close(1) [OF \<Delta>0 d1]
  from d1_0 have m0: "0 \<le> d1 * 1000" by simp
  from d1_le have "d1 * 1000 \<le> 2 powi 75" by simp
  from to_double_finite [OF m0 this]
  obtain d where d: "to_double (d1 * 1000) = Float d" and d_0: "0 \<le> d" and d_le: "d \<le> 2 powi 76"
    by auto
  note c2 = to_double_close(1) [OF m0 d]
  define k where "k = round_half_even (d * 100)"
  define kk where "kk = rat_of_int k / 100"
  from d_0 have k0: "0 \<le> k" unfolding k_def by (intro round_half_even_nonneg) simp
  then have kk0: "0 \<le> kk" by (simp add: kk_def)
  from round_half_even_bounds [of "d * 100"]
  have ck: "\<bar>kk - d\<bar> \<le> 1 / 200" unfolding kk_def k_def by linarith
  then have "kk \<le> d + 1 / 200" by linarith
  with d_le have "kk \<le> 2 powi 77" by simp
  from to_double_finite [OF kk0 this]
  obtain v where v: "to_double kk = Float v" and v0: "0 \<le> v"
    by auto
  note c3 = to_double_close(1) [OF kk0 v]
  have mul: "float_mul (float_sub t1 t0) 1000 = Float d"
    by (simp add: float_sub_def d1 d flip: \<Delta>_def)
  have rnd: "py_round (float_mul (float_sub t1 t0) 1000) 2 = Float v"
    using v by (simp only: mul py_round2_nonneg [OF d_0] flip: k_def kk_def)
  have "\<bar>v - \<Delta> * 1000\<bar> \<le> 1 / 200 + (\<Delta> * 1000 + 1) / 2 ^ 50"
  proof -
    from c1 have a1: "d1 \<le> \<Delta> + (\<Delta> / 2 ^ 53 + 1 / 2 ^ 60)"
      and a2: "\<Delta> - (\<Delta> / 2 ^ 53 + 1 / 2 ^ 60) \<le> d1" by linarith+
    from c2 have b1: "d \<le> d1 * 1000 + (d1 * 1000 / 2 ^ 53 + 1 / 2 ^ 60)"
      and b2: "d1 * 1000 - (d1 * 1000 / 2 ^ 53 + 1 / 2 ^ 60) \<le> d" by linarith+
    from ck have k1: "kk \<le> d + 1 / 200" and k2: "d - 1 / 200 \<le> kk" by linarith+
    from c3 have v1: "v \<le> kk + (kk / 2 ^ 53 + 1 / 2 ^ 60)"
      and v2: "kk - (kk / 2 ^ 53 + 1 / 2 ^ 60) \<le> v" by linarith+
    have up: "v - \<Delta> * 1000 \<le> 1 / 200 + (\<Delta> * 1000 + 1) / 2 ^ 50"
      using a1 b1 k1 v1 \<Delta>0 by (rule rounding_error_upper)
    have lo: "- (1 / 200 + (\<Delta> * 1000 + 1) / 2 ^ 50) \<le> v - \<Delta> * 1000"
      using a2 b2 k2 v2 \<Delta>0 by (rule rounding_error_lower)
    from up lo show ?thesis by linarith
  qed
  with mul rnd d_0 k0 ck v v0 show ?thesis
    unfolding kk_def \<Delta>_def by blast
qed

lemma double_0_000125:
  "to_double (1152921504606847 / 9223372036854775808)
     = Float (1152921504606847 / 9223372036854775808)"
proof -
  have "to_double (1152921504606847 / 9223372036854775808)
      = Float (of_int (round_half_even
                 ((1152921504606847 / 9223372036854775808) / 2 powi (- 13 - 52)))
               * 2 powi (- 13 - 52))"
    by (rule to_double_normal) (simp_all add: power_int_minus_divide)
  moreover have "round_half_even ((1152921504606847 / 9223372036854775808) / 2 powi (- 13 - 52))
                   = 4611686018427388"
    by (rule round_half_even_eqI) (simp add: power_int_minus_divide)
  ultimately show ?thesis by (simp add: power_int_minus_divide)
qed

lemma double_0_000125_times_1000:
  "to_double (144115188075855875 / 1152921504606846976) = Float (1 / 8)"
proof -
  have "to_double (144115188075855875 / 1152921504606846976)
      = Float (of_int (round_half_even
                 ((144115188075855875 / 1152921504606846976) / 2 powi (- 3 - 52)))
               * 2 powi (- 3 - 52))"
    by (rule to_double_normal) (simp_all add: power_int_minus_divide)
  moreover have "round_half_even ((144115188075855875 / 1152921504606846976) / 2 powi (- 3 - 52))
                   = 4503599627370496"
    by (rule round_half_even_eqI) (simp add: power_int_minus_divide)
  ultimately show ?thesis by (simp add: power_int_minus_divide)
qed

lemma double_0_12:
  "to_double (12 / 100) = Float (1080863910568919 / 9007199254740992)"
proof -
  have "to_double (12 / 100)
      = Float (of_int (round_half_even ((12 / 100) / 2 powi (- 4 - 52))) * 2 powi (- 4 - 52))"
    by (rule to_double_normal) (simp_all add: power_int_minus_divide)
  moreover have "round_half_even ((12 / 100) / 2 powi (- 4 - 52)) = 8646911284551352"
    by (rule round_half_even_eqI) (simp add: power_int_minus_divide)
  ultimately show ?thesis by (simp add: power_int_minus_divide)
qed

lemma response_time_example:
  "py_round (float_mul (float_sub (1152921504606847 / 9223372036854775808) 0) 1000) 2
     = Float (1080863910568919 / 9007199254740992)"
proof -
  have "float_mul (float_sub (1152921504606847 / 9223372036854775808) 0) 1000 = Float (1 / 8)"
    by (simp add: float_sub_def double_0_000125 double_0_000125_times_1000)
  moreover have "round_half_even (1 / 8 * 10 ^ 2) = 12"
    using round_half_even_tie [of "1 / 8 * 10 ^ 2" 12] by simp
  ultimately show ?thesis
    using double_0_12 by (simp add: Let_def)
qed

lemma ping_body:
  "body (fst (ping b environ t0 t1 s)) =
     [(''status'', JStr ''ok''),
      (''environment'', JStr (getenv environ ''FLASK_ENV'' ''development'')),
      (''redis_connected'', JBool (\<not> isl (ping_reply b))),
      (''response_time_ms'', JFloat (py_round (float_mul (float_sub t1 t0) 1000) 2)),
      (''version'', JStr ''1.2.0'')]"
  by (simp add: ping_def jsonify_def conn_ping_def Let_def split: prod.splits sum.splits)

lemma count_fails:
  "incr_reply b \<noteq> Replies \<Longrightarrow>
   fst (count b s) =
     \<lparr>status_code = 503,
      body = [(''status'', JStr ''error''),
              (''message'', JStr ''Counter service unavailable''),
              (''action'', JStr ''Please try again later''),
              (''severity'', JStr ''high'')]\<rparr>"
  by (simp add: count_def conn_incr_def jsonify_def error_body_def Let_def
           split: incr_behaviour.splits)

lemma unreachable_incr: "unreachable b \<Longrightarrow> \<exists>e. incr_reply b = Raises e False"
  by (cases "incr_reply b") (simp_all add: unreachable_def)

lemma handle_cached:
  assumes "REDIS_VERSION s = Some v"
  shows "REDIS_VERSION (snd (handle r s)) = Some v"
    and "field (fst (handle r s)) ''visit_count'' \<noteq> None \<Longrightarrow>
           field (fst (handle r s)) ''redis_version'' = Some (JStr v)"
    and "count_list (issued (snd (handle r s))) CmdINFO = count_list (issued s) CmdINFO"
proof -
  from assms have g: "get_redis (backend_of r) s = s" by (rule get_redis_cached)
  show "REDIS_VERSION (snd (handle r s)) = Some v"
    using assms g
    by (cases r)
       (simp_all add: ping_def count_def conn_ping_def conn_incr_def logger_def issue_def Let_def
          split: sum.splits incr_behaviour.splits)
  show "count_list (issued (snd (handle r s))) CmdINFO = count_list (issued s) CmdINFO"
    using g
    by (cases r)
       (simp_all add: ping_def count_def conn_ping_def conn_incr_def logger_def issue_def Let_def
          split: sum.splits incr_behaviour.splits)
  show "field (fst (handle r s)) ''redis_version'' = Some (JStr v)"
    if "field (fst (handle r s)) ''visit_count'' \<noteq> None"
    using that assms g
    by (cases r)
       (simp_all add: field_def ping_body count_def conn_incr_def logger_def issue_def Let_def
          jsonify_def error_body_def json_of_version_def
          split: incr_behaviour.splits)
qed

lemma serve_cached:
  "REDIS_VERSION s = Some v \<Longrightarrow>
   REDIS_VERSION (snd (serve reqs s)) = Some v \<and>
   (\<forall>resp \<in> set (fst (serve reqs s)).
      field resp ''visit_count'' \<noteq> None \<longrightarrow> field resp ''redis_version'' = Some (JStr v)) \<and>
   count_list (issued (snd (serve reqs s))) CmdINFO = count_list (issued s) CmdINFO"
proof (induction reqs arbitrary: s)
  case Nil
  then show ?case by simp
next
  case (Cons r rs)
  from Cons.prems have v1: "REDIS_VERSION (snd (handle r s)) = Some v"
    by (rule handle_cached(1))
  from Cons.IH [OF v1] handle_cached(2) [OF Cons.prems, of r] handle_cached(3) [OF Cons.prems, of r]
  show ?case
    by (simp add: serve_Cons_fst serve_Cons_snd)
qed

lemma get_redis_version: "REDIS_VERSION (get_redis b s) = Some (version_after b s)"
  by (simp add: get_redis_def version_after_def conn_info_def issue_def logger_def Let_def
        split: option.splits sum.splits)

lemma handle_version: "REDIS_VERSION (snd (handle r s)) = Some (version_after (backend_of r) s)"
proof -
  have "REDIS_VERSION (snd (handle r s)) = REDIS_VERSION (get_redis (backend_of r) s)"
    by (cases r)
       (simp_all add: ping_def count_def conn_ping_def conn_incr_def logger_def issue_def Let_def
          split: sum.splits incr_behaviour.splits)
  then show ?thesis by (simp add: get_redis_version)
qed

lemma handle_reports_version:
  "field (fst (handle r s)) ''visit_count'' \<noteq> None \<Longrightarrow>
   field (fst (handle r s)) ''redis_version'' = Some (JStr (version_after (backend_of r) s))"
  using get_redis_version [of "backend_of r" s]
  by (cases r)
     (simp_all add: field_def ping_body count_def conn_incr_def logger_def issue_def Let_def
        jsonify_def error_body_def json_of_version_def
        split: incr_behaviour.splits)

lemma get_redis_fetch_fails:
  assumes "REDIS_VERSION s = None" and "info_reply b = Inl e"
  shows "get_redis b s =
           s\<lparr>REDIS_VERSION := Some ''unknown'',
             logged := logged s @ [\<lparr>levelname = WARNING,
                                    message = ''Could not fetch Redis version'',
                                    custom_data = None\<rparr>],
             issued := issued s @ [CmdINFO]\<rparr>"
  using assms by (simp add: get_redis_def conn_info_def issue_def logger_def)

lemma handle_issued_first:
  assumes "REDIS_VERSION s = None"
  shows "count_list (issued (snd (handle r s))) CmdINFO = count_list (issued s) CmdINFO + 1"
proof -
  from assms have "count_list (issued (get_redis (backend_of r) s)) CmdINFO
                     = count_list (issued s) CmdINFO + 1"
    by (simp add: get_redis_def conn_info_def issue_def logger_def Let_def split: sum.splits)
  moreover have "count_list (issued (snd (handle r s))) CmdINFO
                   = count_list (issued (get_redis (backend_of r) s)) CmdINFO"
    by (cases r)
       (simp_all add: ping_def count_def conn_ping_def conn_incr_def logger_def issue_def Let_def
          split: sum.splits incr_behaviour.splits)
  ultimately show ?thesis by simp
qed

lemma serve_version:
  "REDIS_VERSION (snd (serve (r # reqs) s)) = Some (version_after (backend_of r) s) \<and>
   (\<forall>resp \<in> set (fst (serve (r # reqs) s)).
      field resp ''visit_count'' \<noteq> None \<longrightarrow>
      field resp ''redis_version'' = Some (JStr (version_after (backend_of r) s))) \<and>
   count_list (issued (snd (serve (r # reqs) s))) CmdINFO
     = count_list (issued (snd (handle r s))) CmdINFO"
proof -
  have v: "REDIS_VERSION (snd (handle r s)) = Some (version_after (backend_of r) s)"
    by (rule handle_version)
  from serve_cached [OF v, of reqs] handle_reports_version [of r s]
  show ?thesis by (simp add: serve_Cons_fst serve_Cons_snd)
qed

lemmas run_defs =
  serve_Cons_fst serve_Cons_snd ping_def count_def get_redis_def conn_info_def conn_ping_def
  conn_incr_def logger_def issue_def jsonify_def error_body_def json_of_version_def field_def
  store_incr_def counter_value_def getenv_def fresh_def backend_up_def backend_down_def Let_def

lemma handle_store_unreachable:
  assumes "is_count r \<longrightarrow> unreachable (backend_of r)"
  shows "store (snd (handle r s)) = store s"
proof (cases r)
  case (GET_ping b environ t0 t1)
  then show ?thesis by (simp add: ping_store)
next
  case (GET_count b)
  with assms obtain e where "incr_reply b = Raises e False"
    using unreachable_incr [of b] by auto
  with GET_count show ?thesis
    by (simp add: count_def conn_incr_def logger_def issue_def Let_def)
qed

lemma serve_store_unreachable:
  "\<forall>r \<in> set reqs. is_count r \<longrightarrow> unreachable (backend_of r) \<Longrightarrow>
   store (snd (serve reqs s)) = store s"
proof (induction reqs arbitrary: s)
  case Nil
  show ?case by simp
next
  case (Cons r rs)
  then have "store (snd (serve rs (snd (handle r s)))) = store (snd (handle r s))"
    by simp
  moreover from Cons.prems have "store (snd (handle r s)) = store s"
    by (simp add: handle_store_unreachable)
  ultimately show ?case by (simp add: serve_Cons_snd)
qed

lemma redact_isl [simp]:
  "isl (info_reply (redact b)) = isl (info_reply b)"
  "isl (ping_reply (redact b)) = isl (ping_reply b)"
  "(incr_reply (redact b) = Replies) = (incr_reply b = Replies)"
  by (simp_all add: redact_def split: sum.splits incr_behaviour.splits)

lemma version_after_redact:
  "REDIS_VERSION s' = REDIS_VERSION s \<Longrightarrow> version_after (redact b) s' = version_after b s"
  by (simp add: version_after_def redact_def split: option.splits sum.splits)

lemma count_store:
  "store (snd (count b s)) =
     (case incr_reply b of
        Replies \<Rightarrow> store_incr ''counter'' (store s)
      | Raises e applied \<Rightarrow> if applied then store_incr ''counter'' (store s) else store s)"
  by (simp add: count_def conn_incr_def logger_def issue_def Let_def split: incr_behaviour.splits)

lemma count_response:
  "fst (count b s) =
     (if incr_reply b = Replies
      then jsonify [(''status'', JStr ''ok''),
                    (''visit_count'', JInt (counter_value (store s) ''counter'' + 1)),
                    (''note'', JStr ''Try hitting refresh to see the counter increase!''),
                    (''redis_version'', JStr (version_after b s))]
      else (jsonify error_body)\<lparr>status_code := 503\<rparr>)"
  using get_redis_version [of b s]
  by (simp add: count_def conn_incr_def logger_def issue_def Let_def json_of_version_def
        split: incr_behaviour.splits)

lemma handle_redact:
  assumes "REDIS_VERSION s' = REDIS_VERSION s" and "store s' = store s"
  shows "fst (handle (redact_request r) s') = fst (handle r s)"
    and "REDIS_VERSION (snd (handle (redact_request r) s')) = REDIS_VERSION (snd (handle r s))"
    and "store (snd (handle (redact_request r) s')) = store (snd (handle r s))"
proof -
  have b: "backend_of (redact_request r) = redact (backend_of r)" by (cases r) simp_all
  show "REDIS_VERSION (snd (handle (redact_request r) s')) = REDIS_VERSION (snd (handle r s))"
    using assms(1) by (simp add: handle_version b version_after_redact)
  show "fst (handle (redact_request r) s') = fst (handle r s)"
  proof (cases r)
    case (GET_ping b environ t0 t1)
    have "fst (ping (redact b) environ t0 t1 s') = fst (ping b environ t0 t1 s)"
      by (rule response.equality) (simp_all add: ping_status ping_body)
    with GET_ping show ?thesis by simp
  next
    case (GET_count b)
    with assms show ?thesis
      by (simp add: count_response version_after_redact)
  qed
  show "store (snd (handle (redact_request r) s')) = store (snd (handle r s))"
    using assms(2)
    by (cases r) (simp_all add: ping_store count_store redact_def split: incr_behaviour.splits)
qed

lemma serve_redact:
  "REDIS_VERSION s' = REDIS_VERSION s \<Longrightarrow> store s' = store s \<Longrightarrow>
   fst (serve (map redact_request reqs) s') = fst (serve reqs s)"
proof (induction reqs arbitrary: s s')
  case Nil
  show ?case by simp
next
  case (Cons r rs)
  from handle_redact [OF Cons.prems, of r]
  have "fst (handle (redact_request r) s') = fst (handle r s)"
    and "fst (serve (map redact_request rs) (snd (handle (redact_request r) s')))
           = fst (serve rs (snd (handle r s)))"
    by (simp_all add: Cons.IH)
  then show ?case by (simp add: serve_Cons_fst)
qed

lemma count_logs_error:
  "incr_reply b = Raises e applied \<Longrightarrow>
   last (logged (snd (count b s)))
     = \<lparr>levelname = ERROR, message = ''Redis operation failed'',
        custom_data = Some (''{\"error\": \"'' @ str_of e @ ''\"}'')\<rparr>"
  by (simp add: count_def conn_incr_def logger_def issue_def Let_def)

section \<open>The claims\<close>

text \<open>
  Claim C1. In a run of requests in which every request succeeds (status 200) and nothing
  but the handlers touches the store, the \<^verbatim>\<open>visit_count\<close> values returned by the
  \<^verbatim>\<open>/count\<close> requests are, in order, \<open>c + 1, c + 2, \<dots>, c + N\<close>, where \<open>c\<close> is the
  value of the counter before the run (0 when the key is unset) and \<open>N\<close> the number of
  \<^verbatim>\<open>/count\<close> requests: each is exactly one more than the one before. From a fresh
  process with the counter unset, two successful \<^verbatim>\<open>/count\<close> requests return
  \<^verbatim>\<open>visit_count\<close> 1 and then 2.
\<close>

theorem successive_counts_increase_by_one:
  assumes "\<forall>r \<in> set (fst (serve reqs s)). status_code r = 200"
  shows "visit_counts (fst (serve reqs s)) =
           [counter_value (store s) ''counter'' + 1 ..
            counter_value (store s) ''counter'' + int (length (filter is_count reqs))]
         \<and> (reqs = [GET_count b1, GET_count b2] \<and> s = fresh st \<and> st ''counter'' = None \<longrightarrow>
              map (\<lambda>r. field r ''visit_count'') (fst (serve reqs s)) = [Some (JInt 1), Some (JInt 2)])"
proof
  from assms show "visit_counts (fst (serve reqs s)) =
           [counter_value (store s) ''counter'' + 1 ..
            counter_value (store s) ''counter'' + int (length (filter is_count reqs))]"
    by (rule serve_visit_counts)
next
  show "reqs = [GET_count b1, GET_count b2] \<and> s = fresh st \<and> st ''counter'' = None \<longrightarrow>
          map (\<lambda>r. field r ''visit_count'') (fst (serve reqs s)) = [Some (JInt 1), Some (JInt 2)]"
  proof
    assume a: "reqs = [GET_count b1, GET_count b2] \<and> s = fresh st \<and> st ''counter'' = None"
    with assms have "incr_reply b1 = Replies" and "incr_reply b2 = Replies"
      by (simp_all add: serve_Cons_fst count_status split: if_splits)
    with a show "map (\<lambda>r. field r ''visit_count'') (fst (serve reqs s)) = [Some (JInt 1), Some (JInt 2)]"
      by (simp add: serve_Cons_fst count_def conn_incr_def jsonify_def field_def Let_def
            logger_def issue_def store_incr_def counter_value_def fresh_def)
  qed
qed

theorem successive_counts_increase_by_one_witness:
  "map status_code (fst (serve [GET_count backend_up, GET_count backend_up] (fresh Map.empty)))
     = [200, 200]
   \<and> visit_counts (fst (serve [GET_count backend_up, GET_count backend_up] (fresh Map.empty))) = [1, 2]
   \<and> map (\<lambda>r. field r ''visit_count'')
        (fst (serve [GET_count backend_up, GET_count backend_up] (fresh Map.empty)))
      = [Some (JInt 1), Some (JInt 2)]"
proof -
  have m: "map status_code (fst (serve [GET_count backend_up, GET_count backend_up] (fresh Map.empty)))
     = [200, 200]"
    by (simp add: serve_Cons_fst count_status backend_up_def)
  then have h: "\<forall>r \<in> set (fst (serve [GET_count backend_up, GET_count backend_up] (fresh Map.empty))).
      status_code r = 200"
    by (simp add: serve_Cons_fst)
  have u: "[1 .. 2] = [1, 2::int]" by (simp add: upto_rec1)
  from successive_counts_increase_by_one [OF h, of backend_up backend_up Map.empty] m u
  show ?thesis
    by (simp add: fresh_def counter_value_def)
qed

text \<open>
  Claim C2. Whatever the backend does during the request, and in whatever state the
  process is, \<^verbatim>\<open>/ping\<close> answers with status 200. The probe fails when
  \<^verbatim>\<open>conn.ping()\<close> raises; \<^verbatim>\<open>redis_connected\<close> is \<^verbatim>\<open>false\<close> exactly then, and
  \<^verbatim>\<open>true\<close> exactly when the call returns.
\<close>

theorem ping_always_200:
  "status_code (fst (ping b environ t0 t1 s)) = 200
   \<and> (field (fst (ping b environ t0 t1 s)) ''redis_connected'' = Some (JBool False))
       = isl (ping_reply b)
   \<and> (field (fst (ping b environ t0 t1 s)) ''redis_connected'' = Some (JBool True))
       = (\<not> isl (ping_reply b))"
  by (simp add: ping_status field_def ping_body)

theorem ping_always_200_witness:
  "status_code (fst (ping (backend_down ''Connection refused'') Map.empty 0 1 (fresh Map.empty))) = 200
   \<and> field (fst (ping (backend_down ''Connection refused'') Map.empty 0 1 (fresh Map.empty)))
         ''redis_connected'' = Some (JBool False)
   \<and> isl (ping_reply (backend_down ''Connection refused''))
   \<and> field (fst (ping backend_up Map.empty 0 1 (fresh Map.empty))) ''redis_connected''
       = Some (JBool True)"
  using ping_always_200 [of "backend_down ''Connection refused''" Map.empty 0 1 "fresh Map.empty"]
        ping_always_200 [of backend_up Map.empty 0 1 "fresh Map.empty"]
  by (simp add: backend_down_def backend_up_def)

text \<open>
  Claim C3, as the code has it. The cache starts as \<^verbatim>\<open>None\<close>, not as the string
  \<^verbatim>\<open>"unset"\<close>. The first request of either kind, whether it succeeds or not, sets it: to
  the \<^verbatim>\<open>redis_version\<close> the server reports, or to \<^verbatim>\<open>"unknown"\<close> when the fetch fails or
  the entry is missing (\<open>version_after\<close>; a value already cached is kept). From then on
  the cached value is the same after every later request, and every successful
  \<^verbatim>\<open>/count\<close> response carries it as \<^verbatim>\<open>redis_version\<close>.
\<close>

theorem version_cache_set_once:
  "REDIS_VERSION (fresh st) = None
   \<and> REDIS_VERSION (snd (serve (r # reqs) s)) = Some (version_after (backend_of r) s)
   \<and> (\<forall>resp \<in> set (fst (serve (r # reqs) s)).
         field resp ''visit_count'' \<noteq> None \<longrightarrow>
         field resp ''redis_version'' = Some (JStr (version_after (backend_of r) s)))"
  using serve_version [of r reqs s] by (simp add: fresh_def)

theorem version_cache_set_once_witness:
  "version_after backend_up (fresh Map.empty) = ''7.2.4''
   \<and> REDIS_VERSION (snd (serve [GET_count backend_up,
                                  GET_count (backend_down ''Connection refused''),
                                  GET_count backend_up] (fresh Map.empty))) = Some ''7.2.4''
   \<and> map (\<lambda>resp. field resp ''redis_version'')
        (fst (serve [GET_count backend_up,
                     GET_count (backend_down ''Connection refused''),
                     GET_count backend_up] (fresh Map.empty)))
      = [Some (JStr ''7.2.4''), None, Some (JStr ''7.2.4'')]"
proof -
  have v: "version_after backend_up (fresh Map.empty) = ''7.2.4''"
    by (simp add: version_after_def fresh_def backend_up_def)
  have m: "map (\<lambda>resp. field resp ''redis_version'')
        (fst (serve [GET_count backend_up,
                     GET_count (backend_down ''Connection refused''),
                     GET_count backend_up] (fresh Map.empty)))
      = [Some (JStr ''7.2.4''), None, Some (JStr ''7.2.4'')]"
    by (simp add: run_defs)
  from version_cache_set_once [of Map.empty "GET_count backend_up"
         "[GET_count (backend_down ''Connection refused''), GET_count backend_up]"
         "fresh Map.empty"] v m
  show ?thesis by simp
qed

theorem version_cache_unset_counterexample:
  "REDIS_VERSION (fresh Map.empty) \<noteq> Some ''unset''
   \<and> map (\<lambda>resp. (status_code resp, field resp ''redis_version''))
        (fst (serve [GET_count (backend_down ''Connection refused''),
                     GET_count backend_up] (fresh Map.empty)))
      = [(503, None), (200, Some (JStr ''unknown''))]"
  by (simp add: run_defs)

text \<open>
  Claim C4, as the code has it. When the version fetch fails (the cache is still
  \<^verbatim>\<open>None\<close> and \<^verbatim>\<open>conn.info()\<close> raises), the failure is not fatal and does not reach the
  handlers: \<^verbatim>\<open>/ping\<close> still answers 200 and reports the outcome of the probe alone, and
  \<^verbatim>\<open>/count\<close> succeeds exactly when the increment does, returning the incremented
  counter. \<^verbatim>\<open>get_redis\<close> sets the cache to \<^verbatim>\<open>"unknown"\<close>; it does not leave it at its
  initial value.
\<close>

theorem version_fetch_failure_nonfatal:
  assumes "REDIS_VERSION s = None" and "info_reply b = Inl e"
  shows "REDIS_VERSION (get_redis b s) = Some ''unknown''
         \<and> status_code (fst (ping b environ t0 t1 s)) = 200
         \<and> field (fst (ping b environ t0 t1 s)) ''redis_connected''
             = Some (JBool (\<not> isl (ping_reply b)))
         \<and> status_code (fst (count b s)) = (if incr_reply b = Replies then 200 else 503)
         \<and> (incr_reply b = Replies \<longrightarrow>
              field (fst (count b s)) ''visit_count''
                = Some (JInt (counter_value (store s) ''counter'' + 1)))"
proof -
  have c: "incr_reply b = Replies \<longrightarrow>
             field (fst (count b s)) ''visit_count''
               = Some (JInt (counter_value (store s) ''counter'' + 1))"
    by (simp add: count_def conn_incr_def jsonify_def field_def logger_def issue_def Let_def)
  from get_redis_fetch_fails [OF assms] c show ?thesis
    by (simp add: ping_status count_status field_def ping_body)
qed

theorem version_fetch_failure_nonfatal_witness:
  "REDIS_VERSION (fresh Map.empty) = None
   \<and> info_reply (backend_up\<lparr>info_reply := Inl (ResponseError ''NOPERM'')\<rparr>)
       = Inl (ResponseError ''NOPERM'')
   \<and> REDIS_VERSION (get_redis (backend_up\<lparr>info_reply := Inl (ResponseError ''NOPERM'')\<rparr>)
                        (fresh Map.empty)) = Some ''unknown''
   \<and> status_code (fst (count (backend_up\<lparr>info_reply := Inl (ResponseError ''NOPERM'')\<rparr>)
                         (fresh Map.empty))) = 200
   \<and> field (fst (count (backend_up\<lparr>info_reply := Inl (ResponseError ''NOPERM'')\<rparr>)
                   (fresh Map.empty))) ''visit_count'' = Some (JInt 1)
   \<and> field (fst (ping (backend_up\<lparr>info_reply := Inl (ResponseError ''NOPERM'')\<rparr>)
                   Map.empty 0 1 (fresh Map.empty))) ''redis_connected'' = Some (JBool True)"
proof -
  have h1: "REDIS_VERSION (fresh Map.empty) = None" by (simp add: fresh_def)
  have h2: "info_reply (backend_up\<lparr>info_reply := Inl (ResponseError ''NOPERM'')\<rparr>)
              = Inl (ResponseError ''NOPERM'')" by simp
  from version_fetch_failure_nonfatal [OF h1 h2, of Map.empty 0 1] h1
  show ?thesis by (simp add: backend_up_def fresh_def counter_value_def)
qed

theorem version_fetch_failure_counterexample:
  "REDIS_VERSION (get_redis (backend_down ''Connection refused'') (fresh Map.empty))
     \<noteq> REDIS_VERSION (fresh Map.empty)
   \<and> REDIS_VERSION (get_redis (backend_down ''Connection refused'') (fresh Map.empty))
       = Some ''unknown''
   \<and> map levelname (logged (get_redis (backend_down ''Connection refused'') (fresh Map.empty)))
       = [WARNING]
   \<and> map emitted (logged (get_redis (backend_down ''Connection refused'') (fresh Map.empty)))
       = [False]"
  by (simp add: run_defs emitted_def)

text \<open>
  Claim C5. The body of every \<^verbatim>\<open>/ping\<close> response has exactly the five fields
  \<^verbatim>\<open>status\<close>, \<^verbatim>\<open>environment\<close>, \<^verbatim>\<open>redis_connected\<close>, \<^verbatim>\<open>response_time_ms\<close> and
  \<^verbatim>\<open>version\<close>; \<^verbatim>\<open>status\<close> is \<^verbatim>\<open>"ok"\<close>, \<^verbatim>\<open>environment\<close> is the value of
  \<^verbatim>\<open>FLASK_ENV\<close> or \<^verbatim>\<open>"development"\<close> when it is not set, \<^verbatim>\<open>redis_connected\<close> is a
  boolean and \<^verbatim>\<open>version\<close> is \<^verbatim>\<open>"1.2.0"\<close>. \<^verbatim>\<open>time.perf_counter()\<close> is a monotonic
  clock, so the second reading is not below the first, and the two are less than
  \<open>2\<^sup>6\<^sup>4\<close> seconds apart. Then \<^verbatim>\<open>response_time_ms\<close> is a finite float \<open>v \<ge> 0\<close> rounded to
  two decimals: it is the double nearest to \<open>k/100\<close>, where \<open>k \<ge> 0\<close> is the integer
  nearest to a hundred times \<open>d\<close>, the elapsed milliseconds as the handler computes them in
  floating point from its own two readings. It measures the handler's duration: it is
  within \<open>1/200 + (ms + 1) / 2\<^sup>5\<^sup>0\<close> of the exact elapsed milliseconds \<open>ms\<close>.
\<close>

theorem ping_body_shape:
  assumes "t0 \<le> t1" and "t1 - t0 \<le> 2 ^ 64"
  shows "map fst (body (fst (ping b environ t0 t1 s)))
           = [''status'', ''environment'', ''redis_connected'', ''response_time_ms'', ''version'']
         \<and> field (fst (ping b environ t0 t1 s)) ''status'' = Some (JStr ''ok'')
         \<and> field (fst (ping b environ t0 t1 s)) ''environment''
             = Some (JStr (case environ ''FLASK_ENV'' of None \<Rightarrow> ''development'' | Some v \<Rightarrow> v))
         \<and> (\<exists>c. field (fst (ping b environ t0 t1 s)) ''redis_connected'' = Some (JBool c))
         \<and> field (fst (ping b environ t0 t1 s)) ''version'' = Some (JStr ''1.2.0'')
         \<and> (\<exists>d k v. float_mul (float_sub t1 t0) 1000 = Float d \<and> 0 \<le> d \<and> 0 \<le> k
                \<and> \<bar>rat_of_int k / 100 - d\<bar> \<le> 1 / 200
                \<and> to_double (rat_of_int k / 100) = Float v \<and> 0 \<le> v
                \<and> field (fst (ping b environ t0 t1 s)) ''response_time_ms''
                    = Some (JFloat (Float v))
                \<and> \<bar>v - (t1 - t0) * 1000\<bar> \<le> 1 / 200 + ((t1 - t0) * 1000 + 1) / 2 ^ 50)"
proof -
  from response_time [OF assms]
  obtain d k v where "float_mul (float_sub t1 t0) 1000 = Float d" "0 \<le> d" "0 \<le> k"
    "\<bar>rat_of_int k / 100 - d\<bar> \<le> 1 / 200" "to_double (rat_of_int k / 100) = Float v" "0 \<le> v"
    and r: "py_round (float_mul (float_sub t1 t0) 1000) 2 = Float v"
    and "\<bar>v - (t1 - t0) * 1000\<bar> \<le> 1 / 200 + ((t1 - t0) * 1000 + 1) / 2 ^ 50"
    by blast
  moreover have "field (fst (ping b environ t0 t1 s)) ''response_time_ms'' = Some (JFloat (Float v))"
    unfolding field_def ping_body r by simp
  ultimately have "\<exists>d k v. float_mul (float_sub t1 t0) 1000 = Float d \<and> 0 \<le> d \<and> 0 \<le> k
                \<and> \<bar>rat_of_int k / 100 - d\<bar> \<le> 1 / 200
                \<and> to_double (rat_of_int k / 100) = Float v \<and> 0 \<le> v
                \<and> field (fst (ping b environ t0 t1 s)) ''response_time_ms''
                    = Some (JFloat (Float v))
                \<and> \<bar>v - (t1 - t0) * 1000\<bar> \<le> 1 / 200 + ((t1 - t0) * 1000 + 1) / 2 ^ 50"
    by blast
  moreover have "map fst (body (fst (ping b environ t0 t1 s)))
           = [''status'', ''environment'', ''redis_connected'', ''response_time_ms'', ''version'']"
    and "field (fst (ping b environ t0 t1 s)) ''status'' = Some (JStr ''ok'')"
    and "field (fst (ping b environ t0 t1 s)) ''environment''
             = Some (JStr (case environ ''FLASK_ENV'' of None \<Rightarrow> ''development'' | Some v \<Rightarrow> v))"
    and "\<exists>c. field (fst (ping b environ t0 t1 s)) ''redis_connected'' = Some (JBool c)"
    and "field (fst (ping b environ t0 t1 s)) ''version'' = Some (JStr ''1.2.0'')"
    by (simp_all add: field_def ping_body getenv_def)
  ultimately show ?thesis by (intro conjI)
qed

theorem ping_body_shape_witness:
  "(0::rat) \<le> 1152921504606847 / 9223372036854775808
   \<and> (1152921504606847 / 9223372036854775808 - 0 :: rat) \<le> 2 ^ 64
   \<and> body (fst (ping backend_up [''FLASK_ENV'' \<mapsto> ''production'']
                   0 (1152921504606847 / 9223372036854775808) (fresh Map.empty)))
      = [(''status'', JStr ''ok''), (''environment'', JStr ''production''),
         (''redis_connected'', JBool True),
         (''response_time_ms'', JFloat (Float (1080863910568919 / 9007199254740992))),
         (''version'', JStr ''1.2.0'')]
   \<and> field (fst (ping backend_up [''FLASK_ENV'' \<mapsto> ''production'']
                   0 (1152921504606847 / 9223372036854775808) (fresh Map.empty))) ''status''
      = Some (JStr ''ok'')"
proof -
  have h1: "(0::rat) \<le> 1152921504606847 / 9223372036854775808" by simp
  have h2: "(1152921504606847 / 9223372036854775808 - 0 :: rat) \<le> 2 ^ 64" by simp
  from ping_body_shape [OF h1 h2, of backend_up "[''FLASK_ENV'' \<mapsto> ''production'']"
         "fresh Map.empty"]
  have "field (fst (ping backend_up [''FLASK_ENV'' \<mapsto> ''production'']
                   0 (1152921504606847 / 9223372036854775808) (fresh Map.empty))) ''status''
      = Some (JStr ''ok'')"
    by (rule conjunct1 [OF conjunct2])
  with h1 h2 show ?thesis
    by (simp add: ping_body response_time_example getenv_def backend_up_def)
qed

text \<open>
  Claim C6. When the backend cannot be reached, or the increment raises for any other
  reason, \<^verbatim>\<open>/count\<close> returns status 503 with the body
  \<^verbatim>\<open>{status: "error", message: "Counter service unavailable", action: "Please try again later", severity: "high"}\<close>
  and nothing else; the handler returns this response, the exception ends in its
  \<^verbatim>\<open>except\<close> branch.
\<close>

theorem count_failure_is_503:
  assumes "unreachable b \<or> incr_reply b \<noteq> Replies"
  shows "fst (count b s) =
           \<lparr>status_code = 503,
            body = [(''status'', JStr ''error''),
                    (''message'', JStr ''Counter service unavailable''),
                    (''action'', JStr ''Please try again later''),
                    (''severity'', JStr ''high'')]\<rparr>"
proof -
  from assms have "incr_reply b \<noteq> Replies"
    using unreachable_incr [of b] by auto
  then show ?thesis by (rule count_fails)
qed

theorem count_failure_is_503_witness:
  "unreachable (backend_down ''Connection refused'')
   \<and> status_code (fst (count (backend_down ''Connection refused'') (fresh Map.empty))) = 503
   \<and> field (fst (count (backend_down ''Connection refused'') (fresh Map.empty))) ''message''
       = Some (JStr ''Counter service unavailable'')"
proof -
  have h: "unreachable (backend_down ''Connection refused'')"
    by (simp add: unreachable_def backend_down_def)
  then have "unreachable (backend_down ''Connection refused'')
               \<or> incr_reply (backend_down ''Connection refused'') \<noteq> Replies" ..
  from count_failure_is_503 [OF this, of "fresh Map.empty"] h
  show ?thesis by (simp add: field_def)
qed

text \<open>
  Claim C7. A \<^verbatim>\<open>/count\<close> request made while the backend is unreachable answers 503
  with \<^verbatim>\<open>status: "error"\<close> and leaves the store as it was. After it, and after any
  further requests during which the counter is not reached (\<^verbatim>\<open>/ping\<close> requests, and
  \<^verbatim>\<open>/count\<close> requests against an unreachable backend), the next successful \<^verbatim>\<open>/count\<close>
  returns exactly one more than the value of the counter before the failed request.
\<close>

theorem failed_count_never_happened:
  assumes "unreachable b"
    and "\<forall>r \<in> set mid. is_count r \<longrightarrow> unreachable (backend_of r)"
    and "status_code (fst (count b' (snd (serve (GET_count b # mid) s)))) = 200"
  shows "status_code (fst (count b s)) = 503
         \<and> field (fst (count b s)) ''status'' = Some (JStr ''error'')
         \<and> store (snd (count b s)) = store s
         \<and> field (fst (count b' (snd (serve (GET_count b # mid) s)))) ''visit_count''
             = Some (JInt (counter_value (store s) ''counter'' + 1))"
proof -
  from assms(1) have nr: "incr_reply b \<noteq> Replies"
    using unreachable_incr [of b] by auto
  from assms(1) have st1: "store (snd (count b s)) = store s"
    using handle_store_unreachable [of "GET_count b" s] by simp
  from assms(1,2) have "\<forall>r \<in> set (GET_count b # mid). is_count r \<longrightarrow> unreachable (backend_of r)"
    by simp
  then have st2: "store (snd (serve (GET_count b # mid) s)) = store s"
    by (rule serve_store_unreachable)
  from assms(3) have ok: "incr_reply b' = Replies"
    by (simp add: count_status split: if_splits)
  have "field (fst (count b' (snd (serve (GET_count b # mid) s)))) ''visit_count''
          = Some (JInt (counter_value (store (snd (serve (GET_count b # mid) s))) ''counter'' + 1))"
    using ok by (simp add: count_def conn_incr_def jsonify_def field_def logger_def issue_def Let_def)
  with st2 st1 nr show ?thesis
    by (simp add: count_status count_fails field_def)
qed

theorem failed_count_never_happened_witness:
  "unreachable (backend_down ''Connection refused'')
   \<and> list_all (\<lambda>r. unreachable (backend_of r))
        [GET_ping (backend_down ''Connection refused'') Map.empty 0 1,
         GET_count (backend_down ''Connection refused'')]
   \<and> map (\<lambda>resp. (status_code resp, field resp ''visit_count''))
        (fst (serve [GET_count (backend_down ''Connection refused''),
                     GET_ping (backend_down ''Connection refused'') Map.empty 0 1,
                     GET_count (backend_down ''Connection refused''),
                     GET_count backend_up]
                (fresh [''counter'' \<mapsto> 41])))
      = [(503, None), (200, None), (503, None), (200, Some (JInt 42))]"
proof -
  let ?d = "backend_down ''Connection refused''"
  let ?mid = "[GET_ping ?d Map.empty 0 1, GET_count ?d]"
  let ?s = "fresh [''counter'' \<mapsto> 41]"
  have h1: "unreachable ?d" by (simp add: unreachable_def backend_down_def)
  then have h2: "\<forall>r \<in> set ?mid. is_count r \<longrightarrow> unreachable (backend_of r)" by simp
  have h3: "status_code (fst (count backend_up (snd (serve (GET_count ?d # ?mid) ?s)))) = 200"
    by (simp add: count_status backend_up_def)
  have m: "map status_code (fst (serve [GET_count ?d, GET_ping ?d Map.empty 0 1, GET_count ?d,
                     GET_count backend_up] ?s)) = [503, 200, 503, 200]"
    by (simp add: serve_Cons_fst count_status ping_status backend_up_def backend_down_def)
  have n: "map (\<lambda>resp. field resp ''visit_count'')
             (fst (serve [GET_count ?d, GET_ping ?d Map.empty 0 1, GET_count ?d] ?s))
           = [None, None, None]"
    by (simp add: run_defs)
  from failed_count_never_happened [OF h1 h2 h3] h1 m n
  show ?thesis
    by (simp add: serve_Cons_fst serve_Cons_snd fresh_def counter_value_def)
qed

text \<open>
  Claim C9. The HTTP responses of a run do not depend on the text of the backend's
  errors: replacing every error message by the empty string (\<open>redact\<close>) leaves every
  response of the run, \<^verbatim>\<open>/ping\<close> and \<^verbatim>\<open>/count\<close> alike, unchanged. In particular any
  two failed \<^verbatim>\<open>/count\<close> requests, whatever the errors and the states, get the same
  response. The text of the error goes to the log: the last log record of a failed
  \<^verbatim>\<open>/count\<close> is an \<^verbatim>\<open>ERROR\<close> whose \<^verbatim>\<open>custom_data\<close> holds \<^verbatim>\<open>str(e)\<close>.
\<close>

theorem responses_hide_error_text:
  "fst (serve (map redact_request reqs) s) = fst (serve reqs s)
   \<and> (status_code (fst (count b s1)) = 503 \<and> status_code (fst (count b' s2)) = 503 \<longrightarrow>
        fst (count b s1) = fst (count b' s2))
   \<and> (incr_reply b = Raises e applied \<longrightarrow>
        last (logged (snd (count b s1)))
          = \<lparr>levelname = ERROR, message = ''Redis operation failed'',
             custom_data = Some (''{\"error\": \"'' @ str_of e @ ''\"}'')\<rparr>)"
proof -
  have "fst (serve (map redact_request reqs) s) = fst (serve reqs s)"
    by (rule serve_redact) simp_all
  moreover have "status_code (fst (count b s1)) = 503 \<and> status_code (fst (count b' s2)) = 503 \<longrightarrow>
        fst (count b s1) = fst (count b' s2)"
  proof
    assume "status_code (fst (count b s1)) = 503 \<and> status_code (fst (count b' s2)) = 503"
    then have "incr_reply b \<noteq> Replies" and "incr_reply b' \<noteq> Replies"
      by (simp_all add: count_status split: if_splits)
    then show "fst (count b s1) = fst (count b' s2)"
      by (simp add: count_fails)
  qed
  ultimately show ?thesis by (simp add: count_logs_error)
qed

theorem responses_hide_error_text_witness:
  "status_code (fst (count (backend_down ''Connection refused'') (fresh Map.empty))) = 503
   \<and> status_code (fst (count (backend_down ''Timeout connecting to server'')
                         (fresh [''counter'' \<mapsto> 7]))) = 503
   \<and> fst (count (backend_down ''Connection refused'') (fresh Map.empty))
       = fst (count (backend_down ''Timeout connecting to server'') (fresh [''counter'' \<mapsto> 7]))
   \<and> custom_data (last (logged (snd (count (backend_down ''Connection refused'')
                                        (fresh Map.empty)))))
       = Some ''{\"error\": \"Connection refused\"}''
   \<and> fst (serve [GET_ping (backend_down []) Map.empty 0 1, GET_count (backend_down [])]
            (fresh Map.empty))
       = fst (serve [GET_ping (backend_down ''Connection refused'') Map.empty 0 1,
                     GET_count (backend_down ''Connection refused'')] (fresh Map.empty))"
proof -
  let ?b = "backend_down ''Connection refused''"
  let ?b' = "backend_down ''Timeout connecting to server''"
  have h1: "status_code (fst (count ?b (fresh Map.empty))) = 503"
    by (simp add: count_status backend_down_def)
  have h2: "status_code (fst (count ?b' (fresh [''counter'' \<mapsto> 7]))) = 503"
    by (simp add: count_status backend_down_def)
  have h3: "incr_reply ?b = Raises (ConnectionError ''Connection refused'') False"
    by (simp add: backend_down_def)
  have r: "redact ?b = backend_down []"
    by (simp add: redact_def backend_down_def)
  from responses_hide_error_text [of "[GET_ping ?b Map.empty 0 1, GET_count ?b]"
         "fresh Map.empty" ?b "fresh Map.empty" ?b'
         "fresh [''counter'' \<mapsto> 7]" "ConnectionError ''Connection refused''" False]
    h1 h2 h3 r
  show ?thesis by simp
qed

text \<open>
  Claim C10. If the first version fetch fails (the cache is \<^verbatim>\<open>None\<close> and
  \<^verbatim>\<open>conn.info()\<close> raises during the request), then after that request and after every
  later one, whatever the backend does by then, \<^verbatim>\<open>REDIS_VERSION\<close> is \<^verbatim>\<open>"unknown"\<close>,
  every successful \<^verbatim>\<open>/count\<close> reports \<^verbatim>\<open>redis_version "unknown"\<close>, and the failed
  \<^verbatim>\<open>INFO\<close> is the only one the process ever sends.
\<close>

theorem failed_fetch_is_permanent:
  assumes "REDIS_VERSION s = None" and "isl (info_reply (backend_of r))"
  shows "REDIS_VERSION (snd (serve (r # reqs) s)) = Some ''unknown''
         \<and> (\<forall>resp \<in> set (fst (serve (r # reqs) s)).
               field resp ''visit_count'' \<noteq> None \<longrightarrow>
               field resp ''redis_version'' = Some (JStr ''unknown''))
         \<and> count_list (issued (snd (serve (r # reqs) s))) CmdINFO
             = count_list (issued s) CmdINFO + 1"
proof -
  from assms have "version_after (backend_of r) s = ''unknown''"
    by (cases "info_reply (backend_of r)") (simp_all add: version_after_def)
  with serve_version [of r reqs s] handle_issued_first [OF assms(1), of r]
  show ?thesis by simp
qed

theorem failed_fetch_is_permanent_witness:
  "REDIS_VERSION (fresh Map.empty) = None
   \<and> isl (info_reply (backend_of (GET_ping (backend_down ''Connection refused'') Map.empty 0 1)))
   \<and> REDIS_VERSION (snd (serve [GET_ping (backend_down ''Connection refused'') Map.empty 0 1,
                                  GET_count backend_up, GET_count backend_up]
                            (fresh Map.empty))) = Some ''unknown''
   \<and> map (\<lambda>resp. field resp ''redis_version'')
        (fst (serve [GET_ping (backend_down ''Connection refused'') Map.empty 0 1,
                     GET_count backend_up, GET_count backend_up] (fresh Map.empty)))
      = [None, Some (JStr ''unknown''), Some (JStr ''unknown'')]
   \<and> issued (snd (serve [GET_ping (backend_down ''Connection refused'') Map.empty 0 1,
                          GET_count backend_up, GET_count backend_up] (fresh Map.empty)))
      = [CmdINFO, CmdPING, CmdINCR ''counter'', CmdINCR ''counter'']"
proof -
  have h1: "REDIS_VERSION (fresh Map.empty) = None" by (simp add: fresh_def)
  have h2: "isl (info_reply (backend_of (GET_ping (backend_down ''Connection refused'') Map.empty 0 1)))"
    by (simp add: backend_down_def)
  have m: "map (\<lambda>resp. field resp ''redis_version'')
        (fst (serve [GET_ping (backend_down ''Connection refused'') Map.empty 0 1,
                     GET_count backend_up, GET_count backend_up] (fresh Map.empty)))
      = [None, Some (JStr ''unknown''), Some (JStr ''unknown'')]"
    by (simp add: run_defs)
  have i: "issued (snd (serve [GET_ping (backend_down ''Connection refused'') Map.empty 0 1,
                          GET_count backend_up, GET_count backend_up] (fresh Map.empty)))
      = [CmdINFO, CmdPING, CmdINCR ''counter'', CmdINCR ''counter'']"
    by (simp add: run_defs)
  from failed_fetch_is_permanent [OF h1 h2, of "[GET_count backend_up, GET_count backend_up]"]
    h1 h2 m i
  show ?thesis by simp
qed

end
